theory Spec2Isabelle
  imports Main
begin

section \<open>The photo gallery component of src/App.tsx\<close>

text \<open>
  The component is one React function component.  Its \<open>useState\<close> cells and its
  \<open>cacheRef\<close> become the fields of a record, every callback and effect body becomes a
  function on that record, and the browser around it (the debounce timer, the requests that
  are in flight, \<open>localStorage\<close>, the URLs handed to \<open>fetch\<close>) becomes an extension of
  the record.  JavaScript strings are modelled as \<open>string\<close> over the 8-bit alphabet of
  \<open>char\<close>.
\<close>

subsection \<open>Data\<close>

datatype photo = Photo
  (photo_id: string)
  (alt_description: "string option")
  (description: "string option")
  (urls_small: string)
  (urls_regular: string)
  (user_name: string)
  (user_links_html: string)
  (width: nat)
  (height: nat)

datatype mode = Popular | Latest

fun mode_str :: "mode \<Rightarrow> string" where
  "mode_str Popular = ''popular''"
| "mode_str Latest = ''latest''"

text \<open>
  \<open>cacheRef.current\<close> has type \<open>Record<string, Record<number, Photo[]>>\<close>: a map from
  cache keys to maps from page numbers to pages.  Only own properties are modelled: a key
  that names a property every object inherits (\<open>__proto__\<close>, \<open>constructor\<close>) is treated
  like any other key, where the source would read and write the inherited object.
\<close>

type_synonym cache = "string \<rightharpoonup> (nat \<rightharpoonup> photo list)"

record app =
  photos :: "photo list"
  page :: nat
  loading :: bool
  mode :: mode
  query :: string
  debouncedQuery :: string
  error :: "string option"
  selected :: "photo option"
  history :: "string list"
  cacheRef :: cache

text \<open>
  \<open>ACCESS_KEY\<close> is read from the build environment; it is \<open>undefined\<close> (\<open>None\<close>) when the
  variable is not set.  \<open>!ACCESS_KEY\<close> holds for \<open>undefined\<close> and for the empty string.
\<close>

type_synonym access_key = "string option"

definition no_key :: "access_key \<Rightarrow> bool" where
  "no_key k = (case k of None \<Rightarrow> True | Some s \<Rightarrow> s = [])"

text \<open>
  The body of a response is typed \<open>any\<close> in the source, which reads it in two ways: as the
  photo array itself (\<open>data\<close>) and through its \<open>results\<close> field (\<open>data.results\<close>).  The
  model keeps both readings.  \<open>Rejects msg\<close> is any exception raised inside the \<open>try\<close>
  block by \<open>fetch\<close> or \<open>res.json()\<close>, with \<open>e.message = msg\<close>.
\<close>

datatype data = Data (as_array: "photo list") (results_field: "photo list")

datatype response = Rejects string | Resolves data

text \<open>
  A call of \<open>getPhotos\<close> that reaches \<open>await fetch\<close> is suspended with the values its
  closure captured; \<open>request\<close> holds them together with the arguments of \<open>fetch\<close>.
\<close>

record request =
  req_url :: string
  req_authorization :: string
  req_pageNum :: nat
  req_replace :: bool
  req_debouncedQuery :: string
  req_cacheKey :: string

subsection \<open>Strings\<close>

text \<open>Decimal rendering of a page number inside a template literal.\<close>

definition digit_char :: "nat \<Rightarrow> char" where
  "digit_char d = char_of (48 + d)"

fun show_nat :: "nat \<Rightarrow> string" where
  "show_nat n = (if n < 10 then [digit_char n] else show_nat (n div 10) @ [digit_char (n mod 10)])"

declare show_nat.simps [simp del]

text \<open>
  \<open>String.prototype.trim\<close> removes white space and line terminators from both ends; in
  the 8-bit alphabet these are TAB, LF, VT, FF, CR, SPACE and NBSP.
\<close>

definition js_whitespace :: "char \<Rightarrow> bool" where
  "js_whitespace c = (of_char c \<in> {9, 10, 11, 12, 13, 32, 160 :: nat})"

definition trim :: "string \<Rightarrow> string" where
  "trim s = rev (dropWhile js_whitespace (rev (dropWhile js_whitespace s)))"

subsection \<open>getPhotos\<close>

text \<open>\<open>`${debouncedQuery || mode}`\<close>\<close>

definition cacheKey :: "string \<Rightarrow> mode \<Rightarrow> string" where
  "cacheKey dq m = (if dq \<noteq> [] then dq else mode_str m)"

text \<open>\<open>cacheRef.current[cacheKey]?.[pageNum]\<close>\<close>

definition cachedPage :: "cache \<Rightarrow> string \<Rightarrow> nat \<Rightarrow> photo list option" where
  "cachedPage c k n = (case c k of None \<Rightarrow> None | Some pages \<Rightarrow> pages n)"

definition request_url :: "string \<Rightarrow> mode \<Rightarrow> nat \<Rightarrow> string" where
  "request_url dq m pageNum =
     (if dq \<noteq> []
      then ''https://api.unsplash.com/search/photos?page='' @ show_nat pageNum
             @ ''&per_page=20&query='' @ dq
      else ''https://api.unsplash.com/photos?page='' @ show_nat pageNum
             @ ''&per_page=20&order_by='' @ mode_str m)"

text \<open>
  The part of \<open>getPhotos\<close> that runs before \<open>await fetch\<close>: the guard on the key, the
  cache lookup, \<open>setLoading(true)\<close>, \<open>setError(null)\<close> and the call of \<open>fetch\<close>.  The
  second component is the suspended call, \<open>None\<close> when \<open>getPhotos\<close> returned without
  calling \<open>fetch\<close>.
\<close>

definition getPhotos_start ::
  "access_key \<Rightarrow> nat \<Rightarrow> bool \<Rightarrow> 'a app_scheme \<Rightarrow> 'a app_scheme \<times> request option" where
  "getPhotos_start key pageNum replace st =
     (if no_key key then (st\<lparr>error := Some ''No API key found.''\<rparr>, None)
      else
        let ck = cacheKey (debouncedQuery st) (mode st) in
        case cachedPage (cacheRef st) ck pageNum of
          Some cp \<Rightarrow> (st\<lparr>photos := (if replace then cp else photos st @ cp)\<rparr>, None)
        | None \<Rightarrow>
            (st\<lparr>loading := True, error := None\<rparr>,
             Some \<lparr>req_url = request_url (debouncedQuery st) (mode st) pageNum,
                   req_authorization = ''Client-ID '' @ (case key of None \<Rightarrow> [] | Some k \<Rightarrow> k),
                   req_pageNum = pageNum,
                   req_replace = replace,
                   req_debouncedQuery = debouncedQuery st,
                   req_cacheKey = ck\<rparr>))"

text \<open>
  The part of \<open>getPhotos\<close> that runs when the awaited response arrives: the rest of the
  \<open>try\<close> block, or the \<open>catch\<close> block, and then \<open>finally\<close>.
\<close>

definition new_history :: "string \<Rightarrow> string list \<Rightarrow> string list" where
  "new_history dq prev = take 5 (dq # filter (\<lambda>h. h \<noteq> dq) prev)"

definition getPhotos_finish :: "request \<Rightarrow> response \<Rightarrow> 'a app_scheme \<Rightarrow> 'a app_scheme" where
  "getPhotos_finish req resp st =
     (case resp of
        Rejects msg \<Rightarrow>
          st\<lparr>error := Some (if msg \<noteq> [] then msg else ''Something went wrong''),
             loading := False\<rparr>
      | Resolves d \<Rightarrow>
          let results = (if req_debouncedQuery req \<noteq> [] then results_field d else as_array d);
              pages = (case cacheRef st (req_cacheKey req) of None \<Rightarrow> Map.empty | Some p \<Rightarrow> p);
              st1 = st\<lparr>cacheRef := (cacheRef st)(req_cacheKey req \<mapsto> pages(req_pageNum req \<mapsto> results))\<rparr>;
              st2 = st1\<lparr>photos := (if req_replace req then results else photos st1 @ results)\<rparr>;
              st3 = (if req_replace req \<and> req_debouncedQuery req \<noteq> []
                     then st2\<lparr>history := new_history (req_debouncedQuery req) (history st2)\<rparr>
                     else st2)
          in st3\<lparr>loading := False\<rparr>)"

text \<open>
  One whole invocation of \<open>getPhotos\<close>, given what the network answers if it is asked.
  The result also tells which URLs were fetched.
\<close>

definition getPhotos ::
  "access_key \<Rightarrow> (string \<Rightarrow> response) \<Rightarrow> nat \<Rightarrow> bool \<Rightarrow> 'a app_scheme \<Rightarrow> 'a app_scheme \<times> string list" where
  "getPhotos key net pageNum replace st =
     (case getPhotos_start key pageNum replace st of
        (st', None) \<Rightarrow> (st', [])
      | (st', Some req) \<Rightarrow> (getPhotos_finish req (net (req_url req)) st', [req_url req]))"

subsection \<open>JSON text of a list of strings\<close>

text \<open>
  The history is stored as \<open>JSON.stringify(history)\<close> and read back with \<open>JSON.parse\<close>.
  Both are built into the language; they are modelled here for the values the component
  passes to them, arrays of strings.  \<open>JSON_stringify\<close> quotes a string as the language
  does: a backslash before the double quote and the backslash, the short escapes for
  BS, TAB, LF, FF and CR, \<open>\u00xx\<close> for the other control characters.
\<close>

definition hex_char :: "nat \<Rightarrow> char" where
  "hex_char d = (if d < 10 then char_of (48 + d) else char_of (87 + d))"

definition hex_val :: "char \<Rightarrow> nat option" where
  "hex_val c =
     (let n = of_char c :: nat in
      if 48 \<le> n \<and> n \<le> 57 then Some (n - 48)
      else if 97 \<le> n \<and> n \<le> 102 then Some (n - 87)
      else if 65 \<le> n \<and> n \<le> 70 then Some (n - 55)
      else None)"

definition quote_char :: "char \<Rightarrow> string" where
  "quote_char c =
     (if c = CHR 0x22 then [CHR 0x5C, CHR 0x22]
      else if c = CHR 0x5C then [CHR 0x5C, CHR 0x5C]
      else if c = CHR 0x08 then [CHR 0x5C, CHR ''b'']
      else if c = CHR 0x09 then [CHR 0x5C, CHR ''t'']
      else if c = CHR 0x0A then [CHR 0x5C, CHR ''n'']
      else if c = CHR 0x0C then [CHR 0x5C, CHR ''f'']
      else if c = CHR 0x0D then [CHR 0x5C, CHR ''r'']
      else if of_char c < (32::nat)
        then [CHR 0x5C, CHR ''u'', CHR ''0'', CHR ''0'',
              hex_char (of_char c div 16), hex_char (of_char c mod 16)]
      else [c])"

definition JSON_quote :: "string \<Rightarrow> string" where
  "JSON_quote s = CHR 0x22 # concat (map quote_char s) @ [CHR 0x22]"

fun JSON_stringify :: "string list \<Rightarrow> string" where
  "JSON_stringify [] = ''[]''"
| "JSON_stringify (x # xs) =
     CHR ''['' # JSON_quote x @ concat (map (\<lambda>s. CHR '','' # JSON_quote s) xs) @ [CHR '']'']"

text \<open>
  \<open>JSON_parse\<close> reads the JSON grammar of an array of strings, white space included, one
  character at a time.  \<open>None\<close> stands for the \<open>SyntaxError\<close> of \<open>JSON.parse\<close>, and also
  for a text that denotes anything other than a list of strings over the alphabet of
  \<open>char\<close> (the type \<open>string[]\<close> of the history excludes it).
\<close>

datatype pstate =
    P_start
  | P_open
  | P_str
  | P_esc
  | P_u nat nat
  | P_after_str
  | P_after_comma
  | P_done

type_synonym pconf = "pstate \<times> string \<times> string list"

definition json_ws :: "char \<Rightarrow> bool" where
  "json_ws c = (of_char c \<in> {9, 10, 13, 32 :: nat})"

definition unescape :: "char \<Rightarrow> char option" where
  "unescape c =
     (if c = CHR 0x22 \<or> c = CHR 0x5C \<or> c = CHR ''/'' then Some c
      else if c = CHR ''b'' then Some (CHR 0x08)
      else if c = CHR ''t'' then Some (CHR 0x09)
      else if c = CHR ''n'' then Some (CHR 0x0A)
      else if c = CHR ''f'' then Some (CHR 0x0C)
      else if c = CHR ''r'' then Some (CHR 0x0D)
      else None)"

fun pstep :: "pconf \<Rightarrow> char \<Rightarrow> pconf option" where
  "pstep (P_start, cur, acc) c =
     (if json_ws c then Some (P_start, cur, acc)
      else if c = CHR ''['' then Some (P_open, cur, acc) else None)"
| "pstep (P_open, cur, acc) c =
     (if json_ws c then Some (P_open, cur, acc)
      else if c = CHR '']'' then Some (P_done, cur, acc)
      else if c = CHR 0x22 then Some (P_str, [], acc) else None)"
| "pstep (P_after_comma, cur, acc) c =
     (if json_ws c then Some (P_after_comma, cur, acc)
      else if c = CHR 0x22 then Some (P_str, [], acc) else None)"
| "pstep (P_str, cur, acc) c =
     (if c = CHR 0x22 then Some (P_after_str, [], acc @ [cur])
      else if c = CHR 0x5C then Some (P_esc, cur, acc)
      else if of_char c < (32::nat) then None
      else Some (P_str, cur @ [c], acc))"
| "pstep (P_esc, cur, acc) c =
     (if c = CHR ''u'' then Some (P_u 0 0, cur, acc)
      else case unescape c of None \<Rightarrow> None | Some c' \<Rightarrow> Some (P_str, cur @ [c'], acc))"
| "pstep (P_u n v, cur, acc) c =
     (case hex_val c of
        None \<Rightarrow> None
      | Some h \<Rightarrow>
          if n < 3 then Some (P_u (Suc n) (v * 16 + h), cur, acc)
          else if v * 16 + h < 256 then Some (P_str, cur @ [char_of (v * 16 + h)], acc)
          else None)"
| "pstep (P_after_str, cur, acc) c =
     (if json_ws c then Some (P_after_str, cur, acc)
      else if c = CHR '','' then Some (P_after_comma, cur, acc)
      else if c = CHR '']'' then Some (P_done, cur, acc) else None)"
| "pstep (P_done, cur, acc) c =
     (if json_ws c then Some (P_done, cur, acc) else None)"

fun prun :: "pconf \<Rightarrow> string \<Rightarrow> pconf option" where
  "prun cf [] = Some cf"
| "prun cf (c # cs) = (case pstep cf c of None \<Rightarrow> None | Some cf' \<Rightarrow> prun cf' cs)"

definition JSON_parse :: "string \<Rightarrow> string list option" where
  "JSON_parse s =
     (case prun (P_start, [], []) s of
        None \<Rightarrow> None
      | Some (ps, cur, acc) \<Rightarrow> if ps = P_done then Some acc else None)"

subsection \<open>The component in its browser\<close>

text \<open>
  \<open>timer\<close> is the pending \<open>setTimeout\<close> of the debounce effect: the milliseconds left and
  the \<open>query\<close> its closure captured.  \<open>inflight\<close> are the suspended calls of \<open>getPhotos\<close>,
  \<open>storage\<close> is \<open>localStorage\<close>, and \<open>sent\<close> lists the URLs passed to \<open>fetch\<close> so far.
\<close>

record world = app +
  timer :: "(nat \<times> string) option"
  inflight :: "request list"
  storage :: "string \<rightharpoonup> string"
  sent :: "string list"

definition call_getPhotos :: "access_key \<Rightarrow> nat \<Rightarrow> bool \<Rightarrow> world \<Rightarrow> world" where
  "call_getPhotos key pageNum replace w =
     (case getPhotos_start key pageNum replace w of
        (w', None) \<Rightarrow> w'
      | (w', Some req) \<Rightarrow> w'\<lparr>inflight := inflight w' @ [req], sent := sent w' @ [req_url req]\<rparr>)"

text \<open>The effect with dependencies \<open>[mode, debouncedQuery, getPhotos]\<close>.\<close>

definition reset_effect :: "access_key \<Rightarrow> world \<Rightarrow> world" where
  "reset_effect key w = call_getPhotos key 1 True (w\<lparr>photos := [], page := 1\<rparr>)"

text \<open>
  The effect with dependencies \<open>[page, getPhotos]\<close>; \<open>p\<close> is the value of \<open>page\<close> in the
  render that scheduled the effect.
\<close>

definition page_effect :: "access_key \<Rightarrow> nat \<Rightarrow> world \<Rightarrow> world" where
  "page_effect key p w = (if p > 1 then call_getPhotos key p False w else w)"

text \<open>
  A render in which \<open>mode\<close> or \<open>debouncedQuery\<close> differs from the render before has a new
  \<open>getPhotos\<close>, so both effects that depend on it run after it, in the order of the source.
  The page effect still sees the \<open>page\<close> of that render; the \<open>setPage(1)\<close> of the reset
  effect shows in the next render, whose page effect does nothing.
\<close>

definition feed_changed :: "access_key \<Rightarrow> world \<Rightarrow> world" where
  "feed_changed key w = page_effect key (page w) (reset_effect key w)"

text \<open>The two history effects.\<close>

definition persist_history :: "world \<Rightarrow> world" where
  "persist_history w = w\<lparr>storage := (storage w)(''search-history'' \<mapsto> JSON_stringify (history w))\<rparr>"

text \<open>
  What the effect of the first render hands to \<open>setHistory\<close>: \<open>None\<close> when \<open>JSON.parse\<close>
  throws, \<open>Some None\<close> when \<open>stored\<close> is \<open>null\<close> or empty and nothing is restored.
  A stored text that is valid JSON but not a list of strings also gives \<open>None\<close> here; the
  source would hand the parsed value to \<open>setHistory\<close>, outside the type \<open>string[]\<close>.
\<close>

definition stored_history :: "(string \<rightharpoonup> string) \<Rightarrow> string list option option" where
  "stored_history store =
     (case store ''search-history'' of
        None \<Rightarrow> Some None
      | Some s \<Rightarrow> if s = [] then Some None else map_option Some (JSON_parse s))"

subsection \<open>Events\<close>

datatype event =
    Type string
  | Elapse nat
  | Click_mode mode
  | Click_history string
  | Intersect "bool list"
  | Respond nat response

text \<open>
  A state setter called with the value the state already has causes no render and no
  effect.  A new \<open>query\<close> makes the debounce effect clear its timeout and start a new one.
\<close>

definition setQuery :: "string \<Rightarrow> world \<Rightarrow> world" where
  "setQuery v w = (if v = query w then w else w\<lparr>query := v, timer := Some (500, v)\<rparr>)"

definition setDebouncedQuery :: "access_key \<Rightarrow> string \<Rightarrow> world \<Rightarrow> world" where
  "setDebouncedQuery key v w =
     (if v = debouncedQuery w then w else feed_changed key (w\<lparr>debouncedQuery := v\<rparr>))"

definition setMode :: "access_key \<Rightarrow> mode \<Rightarrow> world \<Rightarrow> world" where
  "setMode key m w = (if m = mode w then w else feed_changed key (w\<lparr>mode := m\<rparr>))"

definition handleHistoryClick :: "access_key \<Rightarrow> string \<Rightarrow> world \<Rightarrow> world" where
  "handleHistoryClick key term w = setDebouncedQuery key term (setQuery term w)"

text \<open>The callback of the timeout: \<open>setDebouncedQuery(query.trim())\<close>.\<close>

definition elapse :: "access_key \<Rightarrow> nat \<Rightarrow> world \<Rightarrow> world" where
  "elapse key d w =
     (case timer w of
        None \<Rightarrow> w
      | Some (r, v) \<Rightarrow>
          if d < r then w\<lparr>timer := Some (r - d, v)\<rparr>
          else setDebouncedQuery key (trim v) (w\<lparr>timer := None\<rparr>))"

text \<open>
  The callback of the \<open>IntersectionObserver\<close>; \<open>loading\<close> is the value captured when the
  observer was created, which the dependency \<open>[loading]\<close> keeps equal to the state.
\<close>

definition observer_callback :: "bool list \<Rightarrow> world \<Rightarrow> world" where
  "observer_callback entries w =
     fold (\<lambda>isIntersecting w'. if isIntersecting \<and> \<not> loading w then w'\<lparr>page := page w' + 1\<rparr> else w')
       entries w"

definition intersect :: "access_key \<Rightarrow> bool list \<Rightarrow> world \<Rightarrow> world" where
  "intersect key entries w =
     (let w' = observer_callback entries w
      in if page w' \<noteq> page w then page_effect key (page w') w' else w')"

definition sets_history :: "request \<Rightarrow> response \<Rightarrow> bool" where
  "sets_history req resp =
     (case resp of Rejects _ \<Rightarrow> False | Resolves _ \<Rightarrow> req_replace req \<and> req_debouncedQuery req \<noteq> [])"

definition respond :: "nat \<Rightarrow> response \<Rightarrow> world \<Rightarrow> world" where
  "respond i resp w =
     (if i < length (inflight w)
      then
        let req = inflight w ! i;
            w1 = w\<lparr>inflight := take i (inflight w) @ drop (Suc i) (inflight w)\<rparr>;
            w2 = getPhotos_finish req resp w1
        in if sets_history req resp then persist_history w2 else w2
      else w)"

fun step :: "access_key \<Rightarrow> world \<Rightarrow> event \<Rightarrow> world" where
  "step key w (Type v) = setQuery v w"
| "step key w (Elapse d) = elapse key d w"
| "step key w (Click_mode m) = setMode key m w"
| "step key w (Click_history term) = handleHistoryClick key term w"
| "step key w (Intersect entries) = intersect key entries w"
| "step key w (Respond i resp) = respond i resp w"

definition run :: "access_key \<Rightarrow> world \<Rightarrow> event list \<Rightarrow> world" where
  "run key w es = foldl (step key) w es"

text \<open>
  The state of the first render, and the effects that follow it in the order of the source:
  the debounce effect starts its timer, the stored history is read, the history of the
  first render is written, the feed is requested.  The sentinel is part of every render, so
  the observer is always installed.  When a history was read, the next render writes it.
\<close>

definition initial :: "(string \<rightharpoonup> string) \<Rightarrow> world" where
  "initial store =
     \<lparr>photos = [], page = 1, loading = False, mode = Popular, query = [],
      debouncedQuery = [], error = None, selected = None, history = [],
      cacheRef = Map.empty,
      timer = None, inflight = [], storage = store, sent = []\<rparr>"

definition mount :: "access_key \<Rightarrow> (string \<rightharpoonup> string) \<Rightarrow> world option" where
  "mount key store =
     (let w1 = (initial store)\<lparr>timer := Some (500, [])\<rparr> in
      (case stored_history (storage w1) of
         None \<Rightarrow> None
       | Some stored \<Rightarrow>
           (let w2 = persist_history w1;
                w3 = page_effect key (page w2) (reset_effect key w2)
            in (case stored of
                  None \<Rightarrow> Some w3
                | Some h \<Rightarrow> Some (persist_history (w3\<lparr>history := h\<rparr>))))))"

subsection \<open>Sample values and invariants\<close>

definition p1 :: photo where
  "p1 = Photo ''p1'' None None ''s1'' ''r1'' ''ann'' ''h1'' 4 3"

definition p2 :: photo where
  "p2 = Photo ''p2'' None None ''s2'' ''r2'' ''bob'' ''h2'' 3 4"

text \<open>The stored text is the serialization of the current history.\<close>

definition synced :: "world \<Rightarrow> bool" where
  "synced w = (storage w ''search-history'' = Some (JSON_stringify (history w)))"

definition store1 :: "string \<rightharpoonup> string" where
  "store1 = [''search-history'' \<mapsto> JSON_stringify [''dogs'', ''cats'']]"

subsection \<open>Bursts of typing\<close>

text \<open>
  A burst is a first edit followed by further edits, each a given number of milliseconds
  after the one before it.  \<open>real_edits q v rest\<close> says that every edit changes the
  value of the input, which starts as \<open>q\<close>.
\<close>

fun burst :: "string \<Rightarrow> (nat \<times> string) list \<Rightarrow> event list" where
  "burst v [] = [Type v]"
| "burst v ((gap, v') # rest) = Type v # Elapse gap # burst v' rest"

fun last_value :: "string \<Rightarrow> (nat \<times> string) list \<Rightarrow> string" where
  "last_value v [] = v"
| "last_value v ((gap, v') # rest) = last_value v' rest"

fun real_edits :: "string \<Rightarrow> string \<Rightarrow> (nat \<times> string) list \<Rightarrow> bool" where
  "real_edits q v [] = (v \<noteq> q)"
| "real_edits q v ((gap, v') # rest) = (v \<noteq> q \<and> real_edits v v' rest)"

text \<open>The component after its first render and effects, with a key and an empty store.\<close>

definition mounted :: world where
  "mounted =
     feed_changed (Some ''k'') (persist_history ((initial Map.empty)\<lparr>timer := Some (500, [])\<rparr>))"

text \<open>The same component once the first page of the popular feed has arrived.\<close>

definition loaded :: world where
  "loaded = step (Some ''k'') mounted (Respond 0 (Resolves (Data [p1] [])))"

text \<open>The component after its first render and effects, with a key and the store \<open>store1\<close>.\<close>

definition restored :: world where
  "restored =
     persist_history
       ((feed_changed (Some ''k'') (persist_history ((initial store1)\<lparr>timer := Some (500, [])\<rparr>)))
          \<lparr>history := [''dogs'', ''cats'']\<rparr>)"

text \<open>
  The loaded component after scrolling to page 2 of the popular feed, switching to the latest
  feed and back, every response having arrived: pages 1 and 2 of the popular feed are cached
  and page 1 is shown.
\<close>

definition revisited :: world where
  "revisited =
     run (Some ''k'') loaded
       [Intersect [True], Respond 0 (Resolves (Data [p2] [])),
        Click_mode Latest, Respond 0 (Resolves (Data [p2] [])), Respond 0 (Resolves (Data [] [])),
        Click_mode Popular]"

section \<open>Properties\<close>

subsection \<open>getPhotos without an access key\<close>

text \<open>
  C9.  When \<open>ACCESS_KEY\<close> is not configured, every call of \<open>getPhotos\<close> sets the error to
  "No API key found." and returns without calling \<open>fetch\<close>: no request is suspended, no URL
  is sent, and the photo list, the page counter, the loading flag, the cache and the history
  keep their values.
\<close>

theorem getPhotos_without_key:
  assumes "no_key key"
  shows "getPhotos_start key pageNum replace st = (st\<lparr>error := Some ''No API key found.''\<rparr>, None)
       \<and> getPhotos key net pageNum replace st = (st\<lparr>error := Some ''No API key found.''\<rparr>, [])
       \<and> call_getPhotos key pageNum replace w = w\<lparr>error := Some ''No API key found.''\<rparr>
       \<and> (let st' = fst (getPhotos key net pageNum replace st)
          in error st' = Some ''No API key found.'' \<and> photos st' = photos st \<and> page st' = page st
             \<and> loading st' = loading st \<and> cacheRef st' = cacheRef st \<and> history st' = history st)"
  using assms by (simp add: getPhotos_def getPhotos_start_def call_getPhotos_def)

theorem getPhotos_without_key_witness:
  "no_key None
   \<and> getPhotos None (\<lambda>u. Rejects []) 2 False (initial Map.empty)
       = ((initial Map.empty)\<lparr>error := Some ''No API key found.''\<rparr>, [])
   \<and> sent (call_getPhotos None 2 False (initial Map.empty)) = []
   \<and> inflight (call_getPhotos None 2 False (initial Map.empty)) = []"
proof -
  have h: "no_key None" by (simp add: no_key_def)
  from getPhotos_without_key [OF h, of 2 False "initial Map.empty" "\<lambda>u. Rejects []" "initial Map.empty"]
  show ?thesis using h by (simp add: initial_def)
qed

subsection \<open>getPhotos when the request fails\<close>

text \<open>
  C3.  Every invocation of \<open>getPhotos\<close> fetches at most one URL.  When the awaited
  request throws, the \<open>catch\<close> and \<open>finally\<close> blocks set the error to the message of the
  exception, or to "Something went wrong" when the message is empty, and reset the loading
  flag; nothing else changes.  In particular an invocation that reaches \<open>fetch\<close> and
  receives an exception leaves the photo list, the cache, the history and the page counter
  as they were, and has fetched exactly once.
\<close>

theorem getPhotos_failure:
  "length (snd (getPhotos key net pageNum replace st)) \<le> 1
   \<and> getPhotos_finish req (Rejects msg) st
       = st\<lparr>error := Some (if msg \<noteq> [] then msg else ''Something went wrong''), loading := False\<rparr>
   \<and> (\<not> no_key key
        \<and> cachedPage (cacheRef st) (cacheKey (debouncedQuery st) (mode st)) pageNum = None
        \<and> net (request_url (debouncedQuery st) (mode st) pageNum) = Rejects msg
      \<longrightarrow> (let st' = fst (getPhotos key net pageNum replace st)
           in error st' = Some (if msg \<noteq> [] then msg else ''Something went wrong'')
              \<and> \<not> loading st' \<and> photos st' = photos st \<and> cacheRef st' = cacheRef st
              \<and> history st' = history st \<and> page st' = page st)
          \<and> snd (getPhotos key net pageNum replace st) = [request_url (debouncedQuery st) (mode st) pageNum])"
  by (simp add: getPhotos_def getPhotos_start_def getPhotos_finish_def Let_def split: option.splits)

theorem getPhotos_failure_witness:
  "\<not> no_key (Some ''k'')
   \<and> cachedPage (cacheRef (initial Map.empty)) (cacheKey (debouncedQuery (initial Map.empty)) (mode (initial Map.empty))) 1 = None
   \<and> error (fst (getPhotos (Some ''k'') (\<lambda>u. Rejects []) 1 True (initial Map.empty))) = Some ''Something went wrong''
   \<and> \<not> loading (fst (getPhotos (Some ''k'') (\<lambda>u. Rejects []) 1 True (initial Map.empty)))
   \<and> photos (fst (getPhotos (Some ''k'') (\<lambda>u. Rejects []) 1 True (initial Map.empty))) = []"
proof -
  have h: "\<not> no_key (Some ''k'')
     \<and> cachedPage (cacheRef (initial Map.empty)) (cacheKey (debouncedQuery (initial Map.empty)) (mode (initial Map.empty))) 1 = None
     \<and> (\<lambda>u. Rejects []) (request_url (debouncedQuery (initial Map.empty)) (mode (initial Map.empty)) 1) = Rejects []"
    by (simp add: no_key_def initial_def cachedPage_def)
  from getPhotos_failure [of "Some ''k''" "\<lambda>u. Rejects []" 1 True "initial Map.empty" _ "[]"] h
  show ?thesis by (simp add: Let_def initial_def)
qed

subsection \<open>The request of getPhotos\<close>

text \<open>
  C5.  A call of \<open>getPhotos\<close> that reaches \<open>fetch\<close> with an empty debounced query
  requests the photos endpoint with \<open>order_by\<close> equal to the current mode, and the text of
  a mode is "popular" or "latest".  With a non-empty debounced query it requests the search
  endpoint with that query, and the photos that are shown and cached are the \<open>results\<close>
  field of the response.
\<close>

theorem getPhotos_request:
  "(getPhotos_start key pageNum replace st = (st', Some req) \<longrightarrow>
      (debouncedQuery st = [] \<longrightarrow>
         req_url req = ''https://api.unsplash.com/photos?page='' @ show_nat pageNum
                         @ ''&per_page=20&order_by='' @ mode_str (mode st)
         \<and> photos (getPhotos_finish req (Resolves d) st2)
             = (if replace then as_array d else photos st2 @ as_array d))
      \<and> (debouncedQuery st \<noteq> [] \<longrightarrow>
         req_url req = ''https://api.unsplash.com/search/photos?page='' @ show_nat pageNum
                         @ ''&per_page=20&query='' @ debouncedQuery st
         \<and> photos (getPhotos_finish req (Resolves d) st2)
             = (if replace then results_field d else photos st2 @ results_field d)
         \<and> cachedPage (cacheRef (getPhotos_finish req (Resolves d) st2)) (debouncedQuery st) pageNum
             = Some (results_field d)))
   \<and> (mode_str m = ''popular'' \<or> mode_str m = ''latest'')"
proof -
  have m: "mode_str m = ''popular'' \<or> mode_str m = ''latest''"
    by (cases m) simp_all
  have r: "getPhotos_start key pageNum replace st = (st', Some req) \<Longrightarrow>
      req_url req = request_url (debouncedQuery st) (mode st) pageNum
      \<and> req_debouncedQuery req = debouncedQuery st \<and> req_replace req = replace
      \<and> req_pageNum req = pageNum \<and> req_cacheKey req = cacheKey (debouncedQuery st) (mode st)"
    by (auto simp: getPhotos_start_def Let_def split: if_splits option.splits)
  show ?thesis
    using m r by (auto simp: request_url_def getPhotos_finish_def Let_def cachedPage_def cacheKey_def)
qed

theorem getPhotos_request_witness:
  "(let st = initial Map.empty; (st', r) = getPhotos_start (Some ''k'') 2 False st
    in case r of None \<Rightarrow> False | Some req \<Rightarrow>
       req_url req = ''https://api.unsplash.com/photos?page=2&per_page=20&order_by=popular'')
  \<and> (let st = (initial Map.empty)\<lparr>debouncedQuery := ''cats''\<rparr>; (st', r) = getPhotos_start (Some ''k'') 3 True st
    in case r of None \<Rightarrow> False | Some req \<Rightarrow>
       req_url req = ''https://api.unsplash.com/search/photos?page=3&per_page=20&query=cats''
       \<and> photos (getPhotos_finish req (Resolves (Data [p1] [p2])) st') = [p2])"
proof -
  let ?a = "initial Map.empty"
  let ?b = "(initial Map.empty)\<lparr>debouncedQuery := ''cats''\<rparr>"
  obtain a' ra where a: "getPhotos_start (Some ''k'') 2 False ?a = (a', Some ra)"
    by (simp add: getPhotos_start_def initial_def no_key_def cachedPage_def cacheKey_def)
  obtain b' rb where b: "getPhotos_start (Some ''k'') 3 True ?b = (b', Some rb)"
    by (simp add: getPhotos_start_def initial_def no_key_def cachedPage_def cacheKey_def)
  have da: "debouncedQuery ?a = []" and db: "debouncedQuery ?b \<noteq> []"
    by (simp_all add: initial_def)
  have s2: "show_nat 2 = ''2''" "show_nat 3 = ''3''" by code_simp+
  from getPhotos_request [of "Some ''k''" 2 False ?a a' ra "Data [] []" a' Popular] a da
  have 1: "req_url ra = ''https://api.unsplash.com/photos?page=2&per_page=20&order_by=popular''"
    by (simp add: s2 initial_def)
  from getPhotos_request [of "Some ''k''" 3 True ?b b' rb "Data [p1] [p2]" b' Popular] b db
  have 2: "req_url rb = ''https://api.unsplash.com/search/photos?page=3&per_page=20&query=cats''
     \<and> photos (getPhotos_finish rb (Resolves (Data [p1] [p2])) b') = [p2]"
    by (simp add: s2 initial_def)
  show ?thesis using 1 2 a b by simp
qed

subsection \<open>The cache key\<close>

text \<open>
  Apart from the queries "popular" and "latest", two feeds have the same key only when
  they are the same feed.
\<close>

lemma cacheKey_separates:
  assumes "q \<noteq> ''popular''" "q \<noteq> ''latest''" "q' \<noteq> ''popular''" "q' \<noteq> ''latest''"
  shows "cacheKey q m = cacheKey q' m' \<longleftrightarrow> q = q' \<and> (q = [] \<longrightarrow> m = m')"
  using assms by (cases m; cases m') (auto simp: cacheKey_def)

text \<open>
  C1.  The cache key is the debounced query, or the text of the mode when the query is
  empty, so the search for "popular" and the popular feed without a query have the same
  key.  After the first page of the popular feed has been cached, searching for "popular"
  sends no request: page 1 is read from the entry of the popular feed and shown as the
  result of the search.
\<close>

theorem cache_key_shared_by_search_and_mode:
  "cacheKey ''popular'' Latest = cacheKey [] Popular
   \<and> (case mount (Some ''k'') Map.empty of
        None \<Rightarrow> False
      | Some w0 \<Rightarrow>
          let w = run (Some ''k'') w0
                    [Respond 0 (Resolves (Data [p1] [])), Type ''popular'', Elapse 500]
          in debouncedQuery w = ''popular'' \<and> photos w = [p1] \<and> inflight w = []
             \<and> sent w = [''https://api.unsplash.com/photos?page=1&per_page=20&order_by=popular''])"
  by code_simp

subsection \<open>A response that arrives late\<close>

text \<open>
  C7.  There is an interleaving in which the mode changes while the request of the first
  feed is in flight, the request of the new feed completes first, and the response of the
  first feed, arriving later, still replaces the photo list and is written to the cache:
  the mode is "latest" and the photos shown are those of "popular".
\<close>

theorem stale_response_is_committed:
  "(case mount (Some ''k'') Map.empty of
      None \<Rightarrow> False
    | Some w0 \<Rightarrow>
        let w1 = step (Some ''k'') w0 (Click_mode Latest);
            w2 = step (Some ''k'') w1 (Respond 1 (Resolves (Data [p2] [])));
            w3 = step (Some ''k'') w2 (Respond 0 (Resolves (Data [p1] [])))
        in map req_url (inflight w1)
             = [''https://api.unsplash.com/photos?page=1&per_page=20&order_by=popular'',
                ''https://api.unsplash.com/photos?page=1&per_page=20&order_by=latest'']
           \<and> mode w2 = Latest \<and> photos w2 = [p2]
           \<and> mode w3 = Latest \<and> photos w3 = [p1]
           \<and> cachedPage (cacheRef w3) ''popular'' 1 = Some [p1]
           \<and> cachedPage (cacheRef w3) ''latest'' 1 = Some [p2])"
  by code_simp

subsection \<open>The search history\<close>

text \<open>
  Every update of the history puts the query first, keeps at most five entries, and keeps
  the entries distinct when they were.
\<close>

lemma new_history_invariant:
  "hd (new_history q prev) = q \<and> length (new_history q prev) \<le> 5
   \<and> (distinct prev \<longrightarrow> distinct (new_history q prev))"
  by (auto simp: new_history_def dest: in_set_takeD)

text \<open>
  C8.  A search whose first page is already cached replaces the photo list from the cache
  and returns before the history is updated: after searching "cats", then "dogs", then
  "cats" again, the photos of "cats" are shown and the history still starts with "dogs".
\<close>

theorem cached_search_skips_history:
  "(case mount (Some ''k'') Map.empty of
      None \<Rightarrow> False
    | Some w0 \<Rightarrow>
        let w = run (Some ''k'') w0
                  [Respond 0 (Resolves (Data [] [])),
                   Type ''cats'', Elapse 500, Respond 0 (Resolves (Data [] [p1])),
                   Type ''dogs'', Elapse 500, Respond 0 (Resolves (Data [] [p2])),
                   Type ''cats'', Elapse 500]
        in debouncedQuery w = ''cats'' \<and> photos w = [p1] \<and> inflight w = []
           \<and> history w = [''dogs'', ''cats''])"
  by code_simp

subsection \<open>Reading back what JSON_stringify wrote\<close>

text \<open>
  The reader is run over the text piece by piece: over an escaped character, over a quoted
  string, over the elements that follow the first one.
\<close>

lemma prun_append:
  "prun cf (xs @ ys) = (case prun cf xs of None \<Rightarrow> None | Some cf' \<Rightarrow> prun cf' ys)"
  by (induction xs arbitrary: cf) (auto split: option.splits)

lemma hex_val_hex_char: "d < 16 \<Longrightarrow> hex_val (hex_char d) = Some d"
  by (auto simp: hex_val_def hex_char_def Let_def)

lemma hex_val_zero: "hex_val (CHR ''0'') = Some 0"
  by (simp add: hex_val_def)

lemma prun_u_escape:
  assumes "of_char c < (32::nat)"
  shows "prun (P_u 0 0, cur, acc)
           [CHR ''0'', CHR ''0'', hex_char (of_char c div 16), hex_char (of_char c mod 16)]
         = Some (P_str, cur @ [c], acc)"
proof -
  let ?n = "of_char c :: nat"
  have hi: "hex_val (hex_char (?n div 16)) = Some (?n div 16)"
    using assms by (intro hex_val_hex_char) simp
  have lo: "hex_val (hex_char (?n mod 16)) = Some (?n mod 16)"
    by (intro hex_val_hex_char) simp
  have n: "?n div 16 * 16 + ?n mod 16 = ?n" by simp
  have lt: "?n < 256" using assms by simp
  show ?thesis
    by (simp add: hex_val_zero hi lo n lt)
qed

lemma prun_quote_char:
  "prun (P_str, cur, acc) (quote_char c) = Some (P_str, cur @ [c], acc)"
proof (cases "of_char c < (32::nat)")
  case True
  have bs: "pstep (P_str, cur, acc) (CHR 0x5C) = Some (P_esc, cur, acc)"
    by simp
  have u: "pstep (P_esc, cur, acc) (CHR ''u'') = Some (P_u 0 0, cur, acc)"
    by simp
  show ?thesis
    using True prun_u_escape [OF True, of cur acc]
    by (simp add: quote_char_def unescape_def del: pstep.simps add: bs u) (simp add: unescape_def)
next
  case False
  then show ?thesis
    by (auto simp: quote_char_def unescape_def)
qed

lemma prun_quoted_body:
  "prun (P_str, cur, acc) (concat (map quote_char s)) = Some (P_str, cur @ s, acc)"
  by (induction s arbitrary: cur) (simp_all add: prun_append prun_quote_char)

lemma prun_JSON_quote:
  assumes "ps = P_open \<or> ps = P_after_comma"
  shows "prun (ps, cur, acc) (JSON_quote s) = Some (P_after_str, [], acc @ [s])"
proof -
  have open_quote: "pstep (ps, cur, acc) (CHR 0x22) = Some (P_str, [], acc)"
    using assms by (auto simp: json_ws_def)
  have close_quote: "pstep (P_str, s, acc) (CHR 0x22) = Some (P_after_str, [], acc @ [s])"
    by simp
  have "prun (ps, cur, acc) (JSON_quote s) = prun (P_str, [], acc) (concat (map quote_char s) @ [CHR 0x22])"
    unfolding JSON_quote_def by (simp only: prun.simps open_quote option.case)
  also have "\<dots> = prun (P_str, s, acc) [CHR 0x22]"
    by (simp only: prun_append prun_quoted_body option.case append_Nil)
  also have "\<dots> = Some (P_after_str, [], acc @ [s])"
    by (simp only: prun.simps close_quote option.case)
  finally show ?thesis .
qed

lemma prun_more_elements:
  "prun (P_after_str, [], acc) (concat (map (\<lambda>s. CHR '','' # JSON_quote s) xs))
     = Some (P_after_str, [], acc @ xs)"
proof (induction xs arbitrary: acc)
  case Nil
  show ?case by simp
next
  case (Cons x xs)
  have comma: "pstep (P_after_str, [], acc) (CHR '','') = Some (P_after_comma, [], acc)"
    by (simp add: json_ws_def)
  have "prun (P_after_str, [], acc) (concat (map (\<lambda>s. CHR '','' # JSON_quote s) (x # xs)))
      = prun (P_after_comma, [], acc) (JSON_quote x @ concat (map (\<lambda>s. CHR '','' # JSON_quote s) xs))"
    by (simp del: pstep.simps add: comma)
  also have "\<dots> = prun (P_after_str, [], acc @ [x]) (concat (map (\<lambda>s. CHR '','' # JSON_quote s) xs))"
    by (simp add: prun_append prun_JSON_quote del: pstep.simps)
  also have "\<dots> = Some (P_after_str, [], acc @ x # xs)"
    by (simp add: Cons.IH)
  finally show ?case .
qed

lemma JSON_parse_stringify: "JSON_parse (JSON_stringify h) = Some h"
proof (cases h)
  case Nil
  then show ?thesis by (simp add: JSON_parse_def json_ws_def)
next
  case (Cons x xs)
  have open_bracket: "pstep (P_start, [], []) (CHR ''['') = Some (P_open, [], [])"
    by (simp add: json_ws_def)
  have close_bracket: "pstep (P_after_str, [], x # xs) (CHR '']'') = Some (P_done, [], x # xs)"
    by (simp add: json_ws_def)
  have "prun (P_start, [], []) (JSON_stringify (x # xs))
      = prun (P_open, [], []) (JSON_quote x @ concat (map (\<lambda>s. CHR '','' # JSON_quote s) xs) @ [CHR '']''])"
    by (simp del: pstep.simps add: open_bracket)
  also have "\<dots> = prun (P_after_str, [], [x]) (concat (map (\<lambda>s. CHR '','' # JSON_quote s) xs) @ [CHR '']''])"
    by (simp add: prun_append prun_JSON_quote del: pstep.simps)
  also have "\<dots> = prun (P_after_str, [], x # xs) [CHR '']'']"
    by (simp add: prun_append prun_more_elements del: pstep.simps)
  also have "\<dots> = Some (P_done, [], x # xs)"
    by (simp del: pstep.simps add: close_bracket)
  finally show ?thesis
    by (simp add: Cons JSON_parse_def)
qed

subsection \<open>What the effects leave alone\<close>

lemma call_getPhotos_frame:
  "history (call_getPhotos key n r w) = history w
   \<and> storage (call_getPhotos key n r w) = storage w
   \<and> timer (call_getPhotos key n r w) = timer w
   \<and> query (call_getPhotos key n r w) = query w
   \<and> debouncedQuery (call_getPhotos key n r w) = debouncedQuery w
   \<and> mode (call_getPhotos key n r w) = mode w
   \<and> page (call_getPhotos key n r w) = page w
   \<and> cacheRef (call_getPhotos key n r w) = cacheRef w"
  by (simp add: call_getPhotos_def getPhotos_start_def Let_def split: option.splits)

lemma feed_changed_frame:
  "history (feed_changed key w) = history w
   \<and> storage (feed_changed key w) = storage w
   \<and> timer (feed_changed key w) = timer w
   \<and> query (feed_changed key w) = query w
   \<and> debouncedQuery (feed_changed key w) = debouncedQuery w
   \<and> mode (feed_changed key w) = mode w
   \<and> page (feed_changed key w) = 1
   \<and> cacheRef (feed_changed key w) = cacheRef w"
  by (simp add: feed_changed_def page_effect_def reset_effect_def call_getPhotos_frame)

lemma synced_feed_changed: "synced (feed_changed key w) = synced w"
  by (simp add: synced_def feed_changed_frame)

lemma fold_bump_page:
  "fold (\<lambda>e w'. if e \<and> b then w'\<lparr>page := page w' + 1\<rparr> else w') es (w::world)
     = w\<lparr>page := page w + (if b then length (filter id es) else 0)\<rparr>"
  by (induction es arbitrary: w) simp_all

lemma observer_callback_eq:
  "observer_callback es w
     = w\<lparr>page := page w + (if loading w then 0 else length (filter id es))\<rparr>"
  unfolding observer_callback_def by (simp add: fold_bump_page)

lemma synced_step:
  assumes "synced w"
  shows "synced (step key w e)"
proof (cases e)
  case (Type v)
  with assms show ?thesis by (simp add: setQuery_def synced_def)
next
  case (Elapse d)
  with assms show ?thesis
    by (auto simp: elapse_def setDebouncedQuery_def synced_feed_changed split: option.splits)
       (simp_all add: synced_def)
next
  case (Click_mode m)
  with assms show ?thesis
    by (auto simp: setMode_def synced_feed_changed) (simp add: synced_def)
next
  case (Click_history t)
  with assms show ?thesis
    by (auto simp: handleHistoryClick_def setDebouncedQuery_def setQuery_def synced_feed_changed)
       (simp_all add: synced_def)
next
  case (Intersect entries)
  with assms show ?thesis
    by (simp add: intersect_def Let_def page_effect_def synced_def call_getPhotos_frame
          observer_callback_eq)
next
  case (Respond i resp)
  with assms show ?thesis
    by (simp add: respond_def Let_def synced_def persist_history_def getPhotos_finish_def
          sets_history_def split: response.splits)
qed

lemma mount_history:
  "mount key store =
     (case stored_history store of
        None \<Rightarrow> None
      | Some None \<Rightarrow> Some (feed_changed key (persist_history ((initial store)\<lparr>timer := Some (500, [])\<rparr>)))
      | Some (Some h) \<Rightarrow>
          Some (persist_history
                 ((feed_changed key (persist_history ((initial store)\<lparr>timer := Some (500, [])\<rparr>)))
                    \<lparr>history := h\<rparr>)))"
  by (simp add: mount_def Let_def feed_changed_def initial_def split: option.splits)

lemma synced_persist: "synced (persist_history w)"
  by (simp add: synced_def persist_history_def)

lemma history_persist: "history (persist_history w) = history w"
  by (simp add: persist_history_def)

text \<open>
  C6.  The history effect writes the JSON text of the history under "search-history";
  reading the JSON text of any list of strings gives that list back; every event keeps the
  stored text equal to the JSON text of the current history, so every change of the history
  is written; and on startup a stored text that parses is restored as the history, while
  no stored text leaves the history empty.
\<close>

theorem history_persistence:
  "storage (persist_history w) ''search-history'' = Some (JSON_stringify (history w))
   \<and> JSON_parse (JSON_stringify h) = Some h
   \<and> (synced w \<longrightarrow> synced (step key w e))
   \<and> (store ''search-history'' = Some s \<and> s \<noteq> [] \<and> JSON_parse s = Some h' \<longrightarrow>
        (\<exists>w'. mount key store = Some w' \<and> history w' = h' \<and> synced w'))
   \<and> (store ''search-history'' = None \<longrightarrow>
        (\<exists>w'. mount key store = Some w' \<and> history w' = [] \<and> synced w'))"
proof (intro conjI impI)
  show "storage (persist_history w) ''search-history'' = Some (JSON_stringify (history w))"
    by (simp add: persist_history_def)
  show "JSON_parse (JSON_stringify h) = Some h"
    by (rule JSON_parse_stringify)
  show "synced (step key w e)" if "synced w"
    using that by (rule synced_step)
  show "\<exists>w'. mount key store = Some w' \<and> history w' = h' \<and> synced w'"
    if "store ''search-history'' = Some s \<and> s \<noteq> [] \<and> JSON_parse s = Some h'"
    using that by (simp add: mount_history stored_history_def synced_persist history_persist)
  show "\<exists>w'. mount key store = Some w' \<and> history w' = [] \<and> synced w'"
    if "store ''search-history'' = None"
    using that
    by (simp add: mount_history stored_history_def synced_feed_changed synced_persist
          feed_changed_frame history_persist initial_def)
qed

theorem history_persistence_witness:
  "store1 ''search-history'' = Some (JSON_stringify [''dogs'', ''cats''])
   \<and> map_option history (mount (Some ''k'') store1) = Some [''dogs'', ''cats'']
   \<and> map_option synced (mount (Some ''k'') store1) = Some True
   \<and> map_option history (mount (Some ''k'') Map.empty) = Some []
   \<and> (case mount (Some ''k'') Map.empty of
        None \<Rightarrow> False
      | Some w0 \<Rightarrow>
          let w1 = run (Some ''k'') w0 [Type ''cats'', Elapse 500]
          in synced w1 \<and> synced (step (Some ''k'') w1 (Respond 1 (Resolves (Data [] [p1]))))
             \<and> history (step (Some ''k'') w1 (Respond 1 (Resolves (Data [] [p1])))) = [''cats''])"
proof -
  let ?s = "JSON_stringify [''dogs'', ''cats'']"
  have a: "store1 ''search-history'' = Some ?s \<and> ?s \<noteq> [] \<and> JSON_parse ?s = Some [''dogs'', ''cats'']"
  proof (intro conjI)
    show "store1 ''search-history'' = Some ?s" by (simp add: store1_def)
    show "?s \<noteq> []" by simp
    show "JSON_parse ?s = Some [''dogs'', ''cats'']" by (rule JSON_parse_stringify)
  qed
  have b: "Map.empty ''search-history'' = (None :: string option)" by simp
  obtain w0 where w0: "mount (Some ''k'') Map.empty = Some w0" "history w0 = []" "synced w0"
    using history_persistence [where store = Map.empty and key = "Some ''k''"] b by blast
  obtain w1 where w1: "w1 = run (Some ''k'') w0 [Type ''cats'', Elapse 500]" by simp
  have s1: "synced w1"
    using w0 w1 history_persistence by (simp add: run_def del: step.simps)
  have s2: "synced (step (Some ''k'') w1 (Respond 1 (Resolves (Data [] [p1]))))"
    using s1 history_persistence by blast
  have h2: "(case mount (Some ''k'') Map.empty of
        None \<Rightarrow> False
      | Some w0 \<Rightarrow> history (step (Some ''k'') (run (Some ''k'') w0 [Type ''cats'', Elapse 500])
                          (Respond 1 (Resolves (Data [] [p1])))) = [''cats''])"
    by code_simp
  from history_persistence [where store = store1 and s = ?s and h' = "[''dogs'', ''cats'']"
      and key = "Some ''k''"] a
  obtain w' where w': "mount (Some ''k'') store1 = Some w'" "history w' = [''dogs'', ''cats'']" "synced w'"
    by blast
  show ?thesis
    using a w' w0 w1 s1 s2 h2 by (simp add: Let_def)
qed

subsection \<open>The debounce timer\<close>

lemma mount_mounted: "mount (Some ''k'') Map.empty = Some mounted"
  by (simp add: mount_history stored_history_def mounted_def)

lemma call_getPhotos_replace_count:
  "length (filter req_replace (inflight (call_getPhotos key n r w)))
     \<le> length (filter req_replace (inflight w)) + (if r then 1 else 0)"
  by (simp add: call_getPhotos_def getPhotos_start_def Let_def split: option.splits)

lemma feed_changed_replace_count:
  "length (filter req_replace (inflight (feed_changed key w)))
     \<le> length (filter req_replace (inflight w)) + 1"
proof -
  let ?w1 = "reset_effect key w"
  have 1: "length (filter req_replace (inflight ?w1)) \<le> length (filter req_replace (inflight w)) + 1"
    using call_getPhotos_replace_count [of key 1 True "w\<lparr>photos := [], page := 1\<rparr>"]
    by (simp add: reset_effect_def)
  have 2: "length (filter req_replace (inflight (page_effect key (page w) ?w1)))
             \<le> length (filter req_replace (inflight ?w1))"
    using call_getPhotos_replace_count [of key "page w" False ?w1]
    by (simp add: page_effect_def)
  from 1 2 show ?thesis by (simp add: feed_changed_def)
qed

lemma burst_run:
  assumes "real_edits (query w) v rest" and "\<forall>(gap, v') \<in> set rest. gap < 500"
  shows "run key w (burst v rest)
           = w\<lparr>query := last_value v rest, timer := Some (500, last_value v rest)\<rparr>"
  using assms
proof (induction v rest arbitrary: w rule: burst.induct)
  case (1 v)
  then show ?case by (simp add: run_def setQuery_def)
next
  case (2 v gap v' rest)
  let ?w' = "w\<lparr>query := v, timer := Some (500 - gap, v)\<rparr>"
  have gap: "gap < 500" and ne: "v \<noteq> query w" using "2.prems" by auto
  have two: "step key (step key w (Type v)) (Elapse gap) = ?w'"
    using gap ne by (simp add: setQuery_def elapse_def)
  have "run key w (burst v ((gap, v') # rest)) = run key ?w' (burst v' rest)"
    using two by (simp add: run_def del: step.simps)
  also have "\<dots> = ?w'\<lparr>query := last_value v' rest, timer := Some (500, last_value v' rest)\<rparr>"
    using "2.prems" by (intro "2.IH") auto
  finally show ?case by simp
qed

lemma setDebouncedQuery_frame:
  "debouncedQuery (setDebouncedQuery key v w) = v
   \<and> query (setDebouncedQuery key v w) = query w
   \<and> timer (setDebouncedQuery key v w) = timer w
   \<and> length (filter req_replace (inflight (setDebouncedQuery key v w)))
        \<le> length (filter req_replace (inflight w)) + 1
   \<and> (v = debouncedQuery w \<longrightarrow> setDebouncedQuery key v w = w)"
  using feed_changed_replace_count [of key "w\<lparr>debouncedQuery := v\<rparr>"]
  by (simp add: setDebouncedQuery_def feed_changed_frame)

text \<open>
  When the feed changes while the page counter is above 1, the page effect of the same
  render requests that page of the new feed as well: after scrolling to page 2 and then
  searching "cats", pages 1 and 2 of the search are requested.
\<close>

lemma feed_change_requests_stale_page:
  "page (run (Some ''k'') loaded [Intersect [True], Respond 0 (Resolves (Data [p2] []))]) = 2
   \<and> drop 2 (sent (run (Some ''k'') loaded
         [Intersect [True], Respond 0 (Resolves (Data [p2] [])), Type ''cats'', Elapse 500]))
     = [''https://api.unsplash.com/search/photos?page=1&per_page=20&query=cats'',
        ''https://api.unsplash.com/search/photos?page=2&per_page=20&query=cats'']"
  by code_simp

text \<open>
  C2, as the code has it.  Take a burst of edits, each changing the input and each less
  than 500 ms after the one before.  During the burst nothing but the input and the timer
  changes: the debounced query keeps its value and no request is sent.  Once 500 ms pass
  after the last edit, the debounced query is the last input value with the white space at
  both ends removed, the feed is reset with \<open>getPhotos(1, true)\<close> at most once, and
  nothing is sent at all when that value is the debounced query already.
\<close>

theorem debounce_burst:
  assumes "real_edits (query w) v rest"
    and "\<forall>(gap, v') \<in> set rest. gap < 500"
    and "500 \<le> d"
  shows "let w1 = run key w (burst v rest); w2 = step key w1 (Elapse d) in
           w1 = w\<lparr>query := last_value v rest, timer := Some (500, last_value v rest)\<rparr>
         \<and> query w2 = last_value v rest
         \<and> debouncedQuery w2 = trim (last_value v rest)
         \<and> timer w2 = None
         \<and> length (filter req_replace (inflight w2)) \<le> length (filter req_replace (inflight w)) + 1
         \<and> (trim (last_value v rest) = debouncedQuery w \<longrightarrow> sent w2 = sent w \<and> inflight w2 = inflight w)"
proof -
  let ?l = "last_value v rest"
  let ?w1 = "w\<lparr>query := ?l, timer := Some (500, ?l)\<rparr>"
  let ?w0 = "w\<lparr>query := ?l, timer := None\<rparr>"
  have w1: "run key w (burst v rest) = ?w1"
    using assms(1,2) by (rule burst_run)
  have w2: "step key ?w1 (Elapse d) = setDebouncedQuery key (trim ?l) ?w0"
    using assms(3) by (simp add: elapse_def)
  show ?thesis
    unfolding Let_def w1 w2
    using setDebouncedQuery_frame [of key "trim ?l" ?w0]
    by simp
qed

theorem debounce_burst_witness:
  "real_edits (query mounted) ''c'' [(100, ''ca''), (120, '' cat '')]
   \<and> query (run (Some ''k'') mounted (burst ''c'' [(100, ''ca''), (120, '' cat '')])) = '' cat ''
   \<and> sent (run (Some ''k'') mounted (burst ''c'' [(100, ''ca''), (120, '' cat '')])) = sent mounted
   \<and> debouncedQuery (step (Some ''k'') (run (Some ''k'') mounted (burst ''c'' [(100, ''ca''), (120, '' cat '')])) (Elapse 500)) = ''cat''"
proof -
  let ?rest = "[(100::nat, ''ca''), (120, '' cat '')]"
  have q: "query mounted = []"
    by (simp add: mounted_def feed_changed_frame history_persist persist_history_def initial_def)
  have a: "real_edits (query mounted) ''c'' ?rest" by (simp add: q)
  have b: "\<forall>(gap, v') \<in> set ?rest. gap < 500" by simp
  have c: "(500::nat) \<le> 500" by simp
  have t: "trim '' cat '' = ''cat''" by code_simp
  have l: "last_value ''c'' ?rest = '' cat ''" by simp
  note th = debounce_burst [OF a b c, of "Some ''k''", unfolded Let_def l t]
  have 1: "run (Some ''k'') mounted (burst ''c'' ?rest)
             = mounted\<lparr>query := '' cat '', timer := Some (500, '' cat '')\<rparr>"
    using th by (rule conjunct1)
  have 2: "debouncedQuery (step (Some ''k'') (run (Some ''k'') mounted (burst ''c'' ?rest)) (Elapse 500)) = ''cat''"
    using th by blast
  have 3: "query (run (Some ''k'') mounted (burst ''c'' ?rest)) = '' cat ''"
    and 4: "sent (run (Some ''k'') mounted (burst ''c'' ?rest)) = sent mounted"
    unfolding 1 by simp_all
  from a 2 3 4 show ?thesis by blast
qed

text \<open>
  C2, as stated, fails: after typing " cat" and waiting 500 ms the input is " cat" and the
  debounced query is "cat".
\<close>

theorem debounced_query_is_trimmed:
  "query (run (Some ''k'') mounted [Type '' cat'', Elapse 500]) = '' cat''
   \<and> debouncedQuery (run (Some ''k'') mounted [Type '' cat'', Elapse 500]) = ''cat''
   \<and> debouncedQuery (run (Some ''k'') mounted [Type '' cat'', Elapse 500])
       \<noteq> query (run (Some ''k'') mounted [Type '' cat'', Elapse 500])"
  by code_simp

subsection \<open>Scrolling to the sentinel\<close>

lemma show_nat_1: "show_nat (Suc 0) = ''1''"
  by code_simp

lemma call_getPhotos_append:
  "\<exists>ps. photos (call_getPhotos key p False w) = photos w @ ps"
  by (simp add: call_getPhotos_def getPhotos_start_def Let_def split: option.splits)

lemma call_getPhotos_uncached:
  assumes "\<not> no_key key"
    and "cachedPage (cacheRef w) (cacheKey (debouncedQuery w) (mode w)) p = None"
  shows "sent (call_getPhotos key p r w) = sent w @ [request_url (debouncedQuery w) (mode w) p]"
    and "\<exists>req. inflight (call_getPhotos key p r w) = inflight w @ [req]
           \<and> req_pageNum req = p \<and> req_replace req = r
           \<and> req_url req = request_url (debouncedQuery w) (mode w) p"
    and "loading (call_getPhotos key p r w)"
    and "photos (call_getPhotos key p r w) = photos w"
  using assms by (simp_all add: call_getPhotos_def getPhotos_start_def Let_def)

lemma call_getPhotos_cached:
  assumes "\<not> no_key key"
    and "cachedPage (cacheRef w) (cacheKey (debouncedQuery w) (mode w)) p = Some cp"
  shows "call_getPhotos key p r w = w\<lparr>photos := (if r then cp else photos w @ cp)\<rparr>"
  using assms by (simp add: call_getPhotos_def getPhotos_start_def Let_def)

lemma page_effect_grows:
  "\<exists>more. sent (page_effect key p w) = sent w @ more"
  "\<exists>more. photos (page_effect key p w) = photos w @ more"
  "loading w \<Longrightarrow> loading (page_effect key p w)"
  by (simp_all add: page_effect_def call_getPhotos_def getPhotos_start_def Let_def split: option.splits)

lemma intersect_page:
  "page (intersect key es w) = page w + (if loading w then 0 else length (filter id es))"
  by (simp add: intersect_def Let_def observer_callback_eq page_effect_def call_getPhotos_frame)

text \<open>
  C4.  While no load is in progress, an intersection of the sentinel raises the page counter
  by exactly one (one for each intersecting entry the observer reports), and does nothing
  while a load is in progress or when no entry intersects.  The page effect then runs with
  the new page number: for a page number greater than 1 it calls \<open>getPhotos(page)\<close> with
  \<open>replace = false\<close>, and does nothing otherwise.  That call never replaces the photo list:
  a cached page is appended at once and nothing is requested; a page that is not cached is
  requested, with \<open>replace = false\<close> kept in the suspended call, and the photos of its
  response are appended to the list that is there when they arrive and cached under the key
  and page of the call; a failed response leaves the list as it is.
\<close>

theorem sentinel_pagination:
  "(\<not> loading w \<longrightarrow>
      page (step key w (Intersect [True])) = page w + 1
      \<and> page (step key w (Intersect es)) = page w + length (filter id es))
   \<and> (loading w \<longrightarrow> step key w (Intersect es) = w)
   \<and> (\<not> loading w \<and> 1 \<le> page w \<longrightarrow>
        step key w (Intersect [True]) = call_getPhotos key (page w + 1) False (w\<lparr>page := page w + 1\<rparr>))
   \<and> (1 < p \<longrightarrow> page_effect key p w = call_getPhotos key p False w)
   \<and> (\<exists>ps. photos (call_getPhotos key p False w) = photos w @ ps)
   \<and> (\<not> no_key key \<and> cachedPage (cacheRef w) (cacheKey (debouncedQuery w) (mode w)) p = None \<longrightarrow>
        sent (call_getPhotos key p False w) = sent w @ [request_url (debouncedQuery w) (mode w) p]
        \<and> (\<exists>req. inflight (call_getPhotos key p False w) = inflight w @ [req]
               \<and> req_pageNum req = p \<and> \<not> req_replace req))
   \<and> (\<not> req_replace req \<longrightarrow>
        photos (getPhotos_finish req (Resolves d) st)
          = photos st @ (if req_debouncedQuery req \<noteq> [] then results_field d else as_array d))
   \<and> (\<not> loading w \<and> filter id es \<noteq> [] \<longrightarrow>
        step key w (Intersect es)
          = page_effect key (page w + length (filter id es))
              (w\<lparr>page := page w + length (filter id es)\<rparr>))
   \<and> (filter id es = [] \<longrightarrow> step key w (Intersect es) = w)
   \<and> (\<not> 1 < p \<longrightarrow> page_effect key p w = w)
   \<and> (\<not> no_key key \<and> cachedPage (cacheRef w) (cacheKey (debouncedQuery w) (mode w)) p = Some cp \<longrightarrow>
        call_getPhotos key p False w = w\<lparr>photos := photos w @ cp\<rparr>)
   \<and> (\<not> no_key key \<and> cachedPage (cacheRef w) (cacheKey (debouncedQuery w) (mode w)) p = None \<longrightarrow>
        call_getPhotos key p False w
          = w\<lparr>loading := True, error := None,
               inflight := inflight w @
                 [\<lparr>req_url = request_url (debouncedQuery w) (mode w) p,
                   req_authorization = ''Client-ID '' @ (case key of None \<Rightarrow> [] | Some k \<Rightarrow> k),
                   req_pageNum = p, req_replace = False,
                   req_debouncedQuery = debouncedQuery w,
                   req_cacheKey = cacheKey (debouncedQuery w) (mode w)\<rparr>],
               sent := sent w @ [request_url (debouncedQuery w) (mode w) p]\<rparr>)
   \<and> (no_key key \<longrightarrow> call_getPhotos key p False w = w\<lparr>error := Some ''No API key found.''\<rparr>)
   \<and> (\<not> req_replace req \<longrightarrow>
        photos (getPhotos_finish req (Rejects msg) st) = photos st
        \<and> cachedPage (cacheRef (getPhotos_finish req (Resolves d) st)) (req_cacheKey req) (req_pageNum req)
            = Some (if req_debouncedQuery req \<noteq> [] then results_field d else as_array d))"
proof (intro conjI impI)
  show "page (step key w (Intersect [True])) = page w + 1" if "\<not> loading w"
    using that by (simp add: intersect_page)
  show "page (step key w (Intersect es)) = page w + length (filter id es)" if "\<not> loading w"
    using that by (simp add: intersect_page)
  show "step key w (Intersect es) = w" if "loading w"
    using that by (simp add: intersect_def observer_callback_eq)
  show "step key w (Intersect [True]) = call_getPhotos key (page w + 1) False (w\<lparr>page := page w + 1\<rparr>)"
    if "\<not> loading w \<and> 1 \<le> page w"
    using that by (simp add: intersect_def observer_callback_eq page_effect_def)
  show "page_effect key p w = call_getPhotos key p False w" if "1 < p"
    using that by (simp add: page_effect_def)
  show "\<exists>ps. photos (call_getPhotos key p False w) = photos w @ ps"
    by (rule call_getPhotos_append)
  show "sent (call_getPhotos key p False w) = sent w @ [request_url (debouncedQuery w) (mode w) p]"
    if "\<not> no_key key \<and> cachedPage (cacheRef w) (cacheKey (debouncedQuery w) (mode w)) p = None"
    using that by (simp add: call_getPhotos_uncached)
  show "\<exists>req. inflight (call_getPhotos key p False w) = inflight w @ [req]
               \<and> req_pageNum req = p \<and> \<not> req_replace req"
    if "\<not> no_key key \<and> cachedPage (cacheRef w) (cacheKey (debouncedQuery w) (mode w)) p = None"
    using that call_getPhotos_uncached(2) [of key w p False] by auto
  show "photos (getPhotos_finish req (Resolves d) st)
          = photos st @ (if req_debouncedQuery req \<noteq> [] then results_field d else as_array d)"
    if "\<not> req_replace req"
    using that by (simp add: getPhotos_finish_def Let_def)
  show "step key w (Intersect es)
          = page_effect key (page w + length (filter id es))
              (w\<lparr>page := page w + length (filter id es)\<rparr>)"
    if "\<not> loading w \<and> filter id es \<noteq> []"
    using that by (simp add: intersect_def observer_callback_eq Let_def)
  show "step key w (Intersect es) = w" if "filter id es = []"
    using that by (simp add: intersect_def observer_callback_eq Let_def)
  show "page_effect key p w = w" if "\<not> 1 < p"
    using that by (simp add: page_effect_def)
  show "call_getPhotos key p False w = w\<lparr>photos := photos w @ cp\<rparr>"
    if "\<not> no_key key \<and> cachedPage (cacheRef w) (cacheKey (debouncedQuery w) (mode w)) p = Some cp"
    using that by (simp add: call_getPhotos_cached)
  show "call_getPhotos key p False w
          = w\<lparr>loading := True, error := None,
               inflight := inflight w @
                 [\<lparr>req_url = request_url (debouncedQuery w) (mode w) p,
                   req_authorization = ''Client-ID '' @ (case key of None \<Rightarrow> [] | Some k \<Rightarrow> k),
                   req_pageNum = p, req_replace = False,
                   req_debouncedQuery = debouncedQuery w,
                   req_cacheKey = cacheKey (debouncedQuery w) (mode w)\<rparr>],
               sent := sent w @ [request_url (debouncedQuery w) (mode w) p]\<rparr>"
    if "\<not> no_key key \<and> cachedPage (cacheRef w) (cacheKey (debouncedQuery w) (mode w)) p = None"
    using that by (simp add: call_getPhotos_def getPhotos_start_def Let_def)
  show "call_getPhotos key p False w = w\<lparr>error := Some ''No API key found.''\<rparr>" if "no_key key"
    using that by (simp add: call_getPhotos_def getPhotos_start_def)
  show "photos (getPhotos_finish req (Rejects msg) st) = photos st" if "\<not> req_replace req"
    by (simp add: getPhotos_finish_def)
  show "cachedPage (cacheRef (getPhotos_finish req (Resolves d) st)) (req_cacheKey req) (req_pageNum req)
            = Some (if req_debouncedQuery req \<noteq> [] then results_field d else as_array d)"
    if "\<not> req_replace req"
    by (simp add: getPhotos_finish_def Let_def cachedPage_def)
qed

theorem sentinel_pagination_witness:
  "\<not> loading loaded \<and> page loaded = 1
   \<and> page (step (Some ''k'') loaded (Intersect [True])) = 2
   \<and> sent (step (Some ''k'') loaded (Intersect [True]))
       = sent loaded @ [''https://api.unsplash.com/photos?page=2&per_page=20&order_by=popular'']
   \<and> photos (step (Some ''k'') (step (Some ''k'') loaded (Intersect [True]))
               (Respond 0 (Resolves (Data [p2] [])))) = [p1, p2]
   \<and> \<not> loading revisited \<and> page revisited = 1 \<and> photos revisited = [p1]
   \<and> cachedPage (cacheRef revisited) ''popular'' 2 = Some [p2]
   \<and> step (Some ''k'') revisited (Intersect [True]) = revisited\<lparr>page := 2, photos := [p1, p2]\<rparr>
   \<and> sent (step (Some ''k'') revisited (Intersect [True])) = sent revisited
   \<and> inflight (step (Some ''k'') revisited (Intersect [True])) = inflight revisited
   \<and> page (step (Some ''k'') loaded (Intersect [True, False, True])) = 3
   \<and> sent (step (Some ''k'') loaded (Intersect [True, False, True]))
       = sent loaded @ [''https://api.unsplash.com/photos?page=3&per_page=20&order_by=popular'']
   \<and> step (Some ''k'') loaded (Intersect [False, False]) = loaded"
proof -
  let ?K = "Some ''k''"
  let ?w2 = "loaded\<lparr>page := page loaded + 1\<rparr>"
  have l: "\<not> loading loaded" and p: "page loaded = 1" and k: "\<not> no_key ?K"
    by code_simp+
  have c: "cachedPage (cacheRef ?w2) (cacheKey (debouncedQuery ?w2) (mode ?w2)) (page loaded + 1) = None"
    by code_simp
  have u: "request_url (debouncedQuery ?w2) (mode ?w2) (page loaded + 1)
             = ''https://api.unsplash.com/photos?page=2&per_page=20&order_by=popular''"
    by code_simp
  have s: "sent ?w2 = sent loaded" by simp
  have p1: "1 \<le> page loaded" using p by simp
  note th = sentinel_pagination [of loaded ?K]
  have 1: "page (step ?K loaded (Intersect [True])) = page loaded + 1"
    using th l by blast
  have 2: "step ?K loaded (Intersect [True]) = call_getPhotos ?K (page loaded + 1) False ?w2"
    using th l p1 by blast
  have 3: "sent (call_getPhotos ?K (page loaded + 1) False ?w2)
             = sent ?w2 @ [request_url (debouncedQuery ?w2) (mode ?w2) (page loaded + 1)]"
    using sentinel_pagination [of ?w2 ?K _ "page loaded + 1"] k c by blast
  have 4: "photos (step ?K (step ?K loaded (Intersect [True])) (Respond 0 (Resolves (Data [p2] []))))
             = [p1, p2]"
    by code_simp
  have 5: "sent (step ?K loaded (Intersect [True]))
       = sent loaded @ [''https://api.unsplash.com/photos?page=2&per_page=20&order_by=popular'']"
    unfolding 2 3 u s ..

  let ?r2 = "revisited\<lparr>page := page revisited + 1\<rparr>"
  have lr: "\<not> loading revisited" and pr: "page revisited = 1" and fr: "photos revisited = [p1]"
    and cr0: "cachedPage (cacheRef revisited) ''popular'' 2 = Some [p2]"
    by code_simp+
  have pr1: "1 \<le> page revisited" using pr by simp
  have cr: "cachedPage (cacheRef ?r2) (cacheKey (debouncedQuery ?r2) (mode ?r2)) (page revisited + 1)
              = Some [p2]"
    by code_simp
  have r1: "step ?K revisited (Intersect [True]) = call_getPhotos ?K (page revisited + 1) False ?r2"
    using sentinel_pagination [of revisited ?K] lr pr1 by blast
  have r2: "call_getPhotos ?K (page revisited + 1) False ?r2 = ?r2\<lparr>photos := photos ?r2 @ [p2]\<rparr>"
    using sentinel_pagination [of ?r2 ?K _ "page revisited + 1" _ _ _ "[p2]"] k cr by blast
  have r3: "step ?K revisited (Intersect [True]) = revisited\<lparr>page := 2, photos := [p1, p2]\<rparr>"
    unfolding r1 r2 by (simp add: pr fr)
  have r4: "sent (step ?K revisited (Intersect [True])) = sent revisited"
    and r5: "inflight (step ?K revisited (Intersect [True])) = inflight revisited"
    unfolding r3 by simp_all

  let ?es = "[True, False, True]"
  let ?w3 = "loaded\<lparr>page := page loaded + 2\<rparr>"
  have n: "length (filter id ?es) = 2" and ne: "filter id ?es \<noteq> []" by simp_all
  note thL = sentinel_pagination [of loaded ?K ?es, unfolded n]
  have 6: "page (step ?K loaded (Intersect ?es)) = page loaded + 2"
    using thL l by blast
  have 7: "step ?K loaded (Intersect ?es) = page_effect ?K (page loaded + 2) ?w3"
    using thL l ne by blast
  have lt: "1 < page loaded + 2" by simp
  note th3 = sentinel_pagination [of ?w3 ?K _ "page loaded + 2"]
  have 8: "page_effect ?K (page loaded + 2) ?w3 = call_getPhotos ?K (page loaded + 2) False ?w3"
    using th3 lt by blast
  have c3: "cachedPage (cacheRef ?w3) (cacheKey (debouncedQuery ?w3) (mode ?w3)) (page loaded + 2) = None"
    by code_simp
  have u3: "request_url (debouncedQuery ?w3) (mode ?w3) (page loaded + 2)
             = ''https://api.unsplash.com/photos?page=3&per_page=20&order_by=popular''"
    by code_simp
  have s3: "sent ?w3 = sent loaded" by simp
  have 9: "sent (call_getPhotos ?K (page loaded + 2) False ?w3)
             = sent ?w3 @ [request_url (debouncedQuery ?w3) (mode ?w3) (page loaded + 2)]"
    using th3 k c3 by blast
  have 10: "sent (step ?K loaded (Intersect ?es))
       = sent loaded @ [''https://api.unsplash.com/photos?page=3&per_page=20&order_by=popular'']"
    unfolding 7 8 9 u3 s3 ..
  have e: "filter id [False, False] = []" by simp
  have 11: "step ?K loaded (Intersect [False, False]) = loaded"
    using sentinel_pagination [of loaded ?K "[False, False]"] e by blast
  from l p 1 4 5 lr pr fr cr0 r3 r4 r5 6 10 11 show ?thesis by simp
qed

subsection \<open>Clicking a term of the history\<close>

lemma reset_effect_uncached:
  assumes "\<not> no_key key"
    and "cachedPage (cacheRef w) (cacheKey (debouncedQuery w) (mode w)) 1 = None"
  shows "sent (reset_effect key w) = sent w @ [request_url (debouncedQuery w) (mode w) 1]"
    and "loading (reset_effect key w)"
    and "photos (reset_effect key w) = []"
  using assms call_getPhotos_uncached [of key "w\<lparr>photos := [], page := 1\<rparr>" 1 True]
  by (simp_all add: reset_effect_def)

lemma reset_effect_cached:
  assumes "\<not> no_key key"
    and "cachedPage (cacheRef w) (cacheKey (debouncedQuery w) (mode w)) 1 = Some cp"
  shows "photos (reset_effect key w) = cp"
  using assms call_getPhotos_cached [of key "w\<lparr>photos := [], page := 1\<rparr>" 1 cp True]
  by (simp add: reset_effect_def)

lemma feed_changed_uncached:
  assumes "\<not> no_key key"
    and "cachedPage (cacheRef w) (cacheKey (debouncedQuery w) (mode w)) 1 = None"
  shows "\<exists>more. sent (feed_changed key w) = sent w @ request_url (debouncedQuery w) (mode w) 1 # more"
    and "loading (feed_changed key w)"
proof -
  let ?w1 = "reset_effect key w"
  obtain more where "sent (page_effect key (page w) ?w1) = sent ?w1 @ more"
    using page_effect_grows(1) by blast
  then show "\<exists>more. sent (feed_changed key w) = sent w @ request_url (debouncedQuery w) (mode w) 1 # more"
    using reset_effect_uncached(1) [OF assms] by (simp add: feed_changed_def)
  show "loading (feed_changed key w)"
    using reset_effect_uncached(2) [OF assms] by (simp add: feed_changed_def page_effect_grows(3))
qed

lemma feed_changed_cached:
  assumes "\<not> no_key key"
    and "cachedPage (cacheRef w) (cacheKey (debouncedQuery w) (mode w)) 1 = Some cp"
  shows "\<exists>more. photos (feed_changed key w) = cp @ more"
  using reset_effect_cached [OF assms] page_effect_grows(2) [of key "page w" "reset_effect key w"]
  by (simp add: feed_changed_def)

lemma setQuery_frame:
  "query (setQuery v w) = v \<and> debouncedQuery (setQuery v w) = debouncedQuery w
   \<and> mode (setQuery v w) = mode w \<and> cacheRef (setQuery v w) = cacheRef w
   \<and> sent (setQuery v w) = sent w \<and> inflight (setQuery v w) = inflight w
   \<and> photos (setQuery v w) = photos w"
  by (simp add: setQuery_def)

lemma mount_restored: "mount (Some ''k'') store1 = Some restored"
proof -
  have "stored_history store1 = Some (Some [''dogs'', ''cats''])"
    unfolding stored_history_def store1_def
    by (simp add: JSON_parse_stringify del: JSON_stringify.simps) simp
  then show ?thesis
    by (simp add: mount_history restored_def)
qed

text \<open>
  C10.  A click on a term of the history sets the input and the debounced query to the term
  in the same event, where typing the term leaves the debounced query and the requests as
  they are until the timer fires.  When the term differs from the debounced query the feed
  is reset in that event: the search for the term is requested (when a key is configured
  and page 1 of the term is not cached) or its cached first page is shown.
\<close>

theorem history_click_is_immediate:
  "query (step key w (Click_history term)) = term
   \<and> debouncedQuery (step key w (Click_history term)) = term
   \<and> debouncedQuery (step key w (Type term)) = debouncedQuery w
   \<and> sent (step key w (Type term)) = sent w
   \<and> (term \<noteq> debouncedQuery w \<longrightarrow>
        step key w (Click_history term) = feed_changed key ((setQuery term w)\<lparr>debouncedQuery := term\<rparr>))
   \<and> (term \<noteq> debouncedQuery w \<and> term \<noteq> [] \<and> \<not> no_key key
        \<and> cachedPage (cacheRef w) term 1 = None \<longrightarrow>
        loading (step key w (Click_history term))
        \<and> (\<exists>more. sent (step key w (Click_history term))
              = sent w @ (''https://api.unsplash.com/search/photos?page=1&per_page=20&query='' @ term) # more))
   \<and> (term \<noteq> debouncedQuery w \<and> term \<noteq> [] \<and> \<not> no_key key
        \<and> cachedPage (cacheRef w) term 1 = Some cp \<longrightarrow>
        (\<exists>more. photos (step key w (Click_history term)) = cp @ more))"
proof (intro conjI impI)
  let ?w1 = "(setQuery term w)\<lparr>debouncedQuery := term\<rparr>"
  show "query (step key w (Click_history term)) = term"
    by (simp add: handleHistoryClick_def setDebouncedQuery_frame setQuery_frame)
  show "debouncedQuery (step key w (Click_history term)) = term"
    by (simp add: handleHistoryClick_def setDebouncedQuery_frame)
  show "debouncedQuery (step key w (Type term)) = debouncedQuery w"
    by (simp add: setQuery_frame)
  show "sent (step key w (Type term)) = sent w"
    by (simp add: setQuery_frame)
  show eq: "step key w (Click_history term) = feed_changed key ?w1" if "term \<noteq> debouncedQuery w"
    using that by (simp add: handleHistoryClick_def setDebouncedQuery_def setQuery_frame)
  {
    assume a: "term \<noteq> debouncedQuery w \<and> term \<noteq> [] \<and> \<not> no_key key
        \<and> cachedPage (cacheRef w) term 1 = None"
    then have k: "\<not> no_key key"
      and c: "cachedPage (cacheRef ?w1) (cacheKey (debouncedQuery ?w1) (mode ?w1)) 1 = None"
      by (simp_all add: cacheKey_def setQuery_frame)
    have u: "request_url (debouncedQuery ?w1) (mode ?w1) 1
               = ''https://api.unsplash.com/search/photos?page=1&per_page=20&query='' @ term"
      using a by (simp add: request_url_def show_nat_1)
    show "loading (step key w (Click_history term))"
      using a eq feed_changed_uncached(2) [OF k c] by simp
    show "\<exists>more. sent (step key w (Click_history term))
              = sent w @ (''https://api.unsplash.com/search/photos?page=1&per_page=20&query='' @ term) # more"
      using a eq feed_changed_uncached(1) [OF k c] u by (simp add: setQuery_frame)
  }
  {
    assume a: "term \<noteq> debouncedQuery w \<and> term \<noteq> [] \<and> \<not> no_key key
        \<and> cachedPage (cacheRef w) term 1 = Some cp"
    then have k: "\<not> no_key key"
      and c: "cachedPage (cacheRef ?w1) (cacheKey (debouncedQuery ?w1) (mode ?w1)) 1 = Some cp"
      by (simp_all add: cacheKey_def setQuery_frame)
    show "\<exists>more. photos (step key w (Click_history term)) = cp @ more"
      using a eq feed_changed_cached [OF k c] by simp
  }
qed

theorem history_click_is_immediate_witness:
  "mount (Some ''k'') store1 = Some restored
   \<and> history restored = [''dogs'', ''cats'']
   \<and> ''dogs'' \<noteq> debouncedQuery restored
   \<and> cachedPage (cacheRef restored) ''dogs'' 1 = None
   \<and> query (step (Some ''k'') restored (Click_history ''dogs'')) = ''dogs''
   \<and> debouncedQuery (step (Some ''k'') restored (Click_history ''dogs'')) = ''dogs''
   \<and> loading (step (Some ''k'') restored (Click_history ''dogs''))
   \<and> ''https://api.unsplash.com/search/photos?page=1&per_page=20&query=dogs''
       \<in> set (sent (step (Some ''k'') restored (Click_history ''dogs'')))"
proof -
  let ?K = "Some ''k''"
  let ?w = "step ?K restored (Click_history ''dogs'')"
  have h: "history restored = [''dogs'', ''cats'']"
    by (simp add: restored_def history_persist)
  have a: "''dogs'' \<noteq> debouncedQuery restored \<and> ''dogs'' \<noteq> [] \<and> \<not> no_key ?K
           \<and> cachedPage (cacheRef restored) ''dogs'' 1 = None"
    by (simp add: restored_def persist_history_def feed_changed_frame initial_def no_key_def
          cachedPage_def)
  note th = history_click_is_immediate [of ?K restored "''dogs''"]
  have 1: "query ?w = ''dogs''" and 2: "debouncedQuery ?w = ''dogs''"
    using th by blast+
  have 3: "loading ?w"
    using th a by blast
  obtain more where
    "sent ?w = sent restored @ (''https://api.unsplash.com/search/photos?page=1&per_page=20&query='' @ ''dogs'') # more"
    using th a by blast
  then have 4: "''https://api.unsplash.com/search/photos?page=1&per_page=20&query=dogs'' \<in> set (sent ?w)"
    by simp
  from mount_restored h a 1 2 3 4 show ?thesis by blast
qed

end
